theory Spec2Isabelle
  imports Main "HOL-Library.Word" "HOL-Library.List_Lexorder" "HOL-Library.Multiset"
begin

section \<open>Strings of the host language\<close>

text \<open>
  The plugin is TypeScript: a string is a sequence of 16-bit code units, compared
  unit by unit. A code unit is a \<open>16 word\<close> (unsigned order), a string a list of them
  (lexicographic order, a proper prefix being smaller, as the comparison of two strings is).
  \<open>jsstr\<close> writes a literal.
\<close>

type_synonym cu = "16 word"
type_synonym jsstring = "cu list"

definition jsstr :: "string \<Rightarrow> jsstring" where
  "jsstr s = map of_char s"

text \<open>
  The characters that \<open>String.prototype.trim\<close> removes and that \<open>\s\<close> matches are the
  same set: WhiteSpace and LineTerminator of the language definition. The dot of a
  regular expression without the \<open>s\<close> flag matches everything but a LineTerminator.
\<close>

definition isLineTerminator :: "cu \<Rightarrow> bool" where
  "isLineTerminator c \<longleftrightarrow> c = 0x0A \<or> c = 0x0D \<or> c = 0x2028 \<or> c = 0x2029"

definition isWhiteSpace :: "cu \<Rightarrow> bool" where
  "isWhiteSpace c \<longleftrightarrow>
     c = 0x09 \<or> c = 0x0B \<or> c = 0x0C \<or> c = 0x20 \<or> c = 0xA0 \<or> c = 0x1680 \<or>
     (0x2000 \<le> c \<and> c \<le> 0x200A) \<or> c = 0x202F \<or> c = 0x205F \<or> c = 0x3000 \<or>
     c = 0xFEFF"

definition isSpace :: "cu \<Rightarrow> bool" where
  "isSpace c \<longleftrightarrow> isWhiteSpace c \<or> isLineTerminator c"

definition trim :: "jsstring \<Rightarrow> jsstring" where
  "trim s = rev (dropWhile isSpace (rev (dropWhile isSpace s)))"

text \<open>
  A value stored in \<open>items\<close>. The array is declared \<open>string[]\<close>, but an index outside
  an array reads \<open>undefined\<close>, and the loop can push what it read.
\<close>

datatype jsval = Undefined | Str jsstring

definition at :: "'a list \<Rightarrow> int \<Rightarrow> 'a option" where
  "at xs i = (if 0 \<le> i \<and> i < int (length xs) then Some (xs ! nat i) else None)"

definition jsval_of :: "jsstring option \<Rightarrow> jsval" where
  "jsval_of v = (case v of None \<Rightarrow> Undefined | Some s \<Rightarrow> Str s)"

section \<open>Regular expressions\<close>

text \<open>
  The expressions of the plugin are sequences of anchors, single character classes
  under a greedy or lazy quantifier, and one capturing group. \<open>run\<close> is the
  backtracking matcher for such a sequence: a greedy quantifier first tries one more
  character and falls back to the rest of the expression, a lazy one first tries the
  rest. It returns the text of group 1 and the input left after the match.
\<close>

datatype cls = AnyChar | WS | Ch cu | Alt cls cls | Neg cls

fun cls_ok :: "cls \<Rightarrow> cu \<Rightarrow> bool" where
  "cls_ok AnyChar c = (\<not> isLineTerminator c)"
| "cls_ok WS c = isSpace c"
| "cls_ok (Ch x) c = (c = x)"
| "cls_ok (Alt a b) c = (cls_ok a c \<or> cls_ok b c)"
| "cls_ok (Neg a) c = (\<not> cls_ok a c)"

datatype node =
    Bol | Eol | One cls | Star cls | Plus cls | LazyStar cls | LazyPlus cls
  | GroupOpen | GroupClose

type_synonym mresult = "(jsstring option \<times> jsstring) option"

fun run :: "node list \<Rightarrow> nat \<Rightarrow> jsstring \<Rightarrow> jsstring option \<Rightarrow> jsstring option \<Rightarrow> mresult" where
  "run [] pos s g cap = Some (cap, s)"
| "run (Bol # r) pos s g cap = (if pos = 0 then run r pos s g cap else None)"
| "run (Eol # r) pos s g cap = (if s = [] then run r pos s g cap else None)"
| "run (One c # r) pos s g cap =
     (case s of [] \<Rightarrow> None
      | x # xs \<Rightarrow> if cls_ok c x then run r (pos + 1) xs g cap else None)"
| "run (Star c # r) pos s g cap =
     (case s of [] \<Rightarrow> run r pos s g cap
      | x # xs \<Rightarrow>
          if cls_ok c x then
            (case run (Star c # r) (pos + 1) xs g cap of
               Some res \<Rightarrow> Some res
             | None \<Rightarrow> run r pos s g cap)
          else run r pos s g cap)"
| "run (Plus c # r) pos s g cap =
     (case s of [] \<Rightarrow> None
      | x # xs \<Rightarrow> if cls_ok c x then run (Star c # r) (pos + 1) xs g cap else None)"
| "run (LazyStar c # r) pos s g cap =
     (case run r pos s g cap of
        Some res \<Rightarrow> Some res
      | None \<Rightarrow>
          (case s of [] \<Rightarrow> None
           | x # xs \<Rightarrow> if cls_ok c x then run (LazyStar c # r) (pos + 1) xs g cap else None))"
| "run (LazyPlus c # r) pos s g cap =
     (case s of [] \<Rightarrow> None
      | x # xs \<Rightarrow> if cls_ok c x then run (LazyStar c # r) (pos + 1) xs g cap else None)"
| "run (GroupOpen # r) pos s g cap = run r pos s (Some s) cap"
| "run (GroupClose # r) pos s g cap =
     run r pos s g (case g of None \<Rightarrow> cap | Some s0 \<Rightarrow> Some (take (length s0 - length s) s0))"

text \<open>
  \<open>String.prototype.match\<close> with an expression that has no \<open>g\<close> flag: the first start
  offset, from the left, at which the expression matches.
\<close>

fun search :: "node list \<Rightarrow> nat \<Rightarrow> jsstring \<Rightarrow> mresult" where
  "search re pos [] = run re pos [] None None"
| "search re pos (x # xs) =
     (case run re pos (x # xs) None None of
        Some res \<Rightarrow> Some res
      | None \<Rightarrow> search re (pos + 1) xs)"

definition lit :: "string \<Rightarrow> node list" where
  "lit s = map (\<lambda>c. One (Ch (of_char c))) s"

text \<open>
  \<^verbatim>\<open>const TODO_REGEXES = [ /^.*TODO\s*:\s*(.+?)$/, /^(.+?)\s+TODO\s*$/, /^(.+?[\s(]TODO[)\s].+?)$/ ];\<close>
  The three expressions of the array, in its order: the labeled, the trailing and the
  embedded rule.
\<close>

definition RE_LABELED :: "node list" where
  "RE_LABELED = [Bol, Star AnyChar] @ lit ''TODO'' @ [Star WS] @ lit '':'' @
     [Star WS, GroupOpen, LazyPlus AnyChar, GroupClose, Eol]"

definition RE_TRAILING :: "node list" where
  "RE_TRAILING = [Bol, GroupOpen, LazyPlus AnyChar, GroupClose, Plus WS] @ lit ''TODO'' @ [Star WS, Eol]"

definition RE_EMBEDDED :: "node list" where
  "RE_EMBEDDED = [Bol, GroupOpen, LazyPlus AnyChar, One (Alt WS (Ch (of_char CHR ''('')))] @ lit ''TODO'' @
     [One (Alt (Ch (of_char CHR '')'')) WS), LazyPlus AnyChar, GroupClose, Eol]"

definition TODO_REGEXES :: "node list list" where
  "TODO_REGEXES = [RE_LABELED, RE_TRAILING, RE_EMBEDDED]"

text \<open>\<^verbatim>\<open>/\[\[([^\]]+)\]\]/g\<close>, the expression that finds a wiki link.\<close>

definition LINK_REGEX :: "node list" where
  "LINK_REGEX = lit ''[['' @ [GroupOpen, Plus (Neg (Ch (of_char CHR '']''))), GroupClose] @ lit '']]''"

text \<open>
  \<open>md.replace(re, "$1")\<close> with a \<open>g\<close> flag: every match, from the left and without
  overlap, is replaced by the text of its group 1. After an empty match the scan moves on
  by one character.
\<close>

definition group_text :: "jsstring option \<Rightarrow> jsstring" where
  "group_text cap = (case cap of None \<Rightarrow> [] | Some t \<Rightarrow> t)"

function replace_all :: "node list \<Rightarrow> nat \<Rightarrow> jsstring \<Rightarrow> jsstring" where
  "replace_all re pos s =
     (case s of
        [] \<Rightarrow> (case run re pos [] None None of None \<Rightarrow> [] | Some (cap, rest) \<Rightarrow> group_text cap)
      | x # xs \<Rightarrow>
          (case run re pos s None None of
             None \<Rightarrow> x # replace_all re (pos + 1) xs
           | Some (cap, rest) \<Rightarrow>
               if length rest < length s
               then group_text cap @ replace_all re (pos + (length s - length rest)) rest
               else group_text cap @ x # replace_all re (pos + 1) xs))"
  by pat_completeness auto
termination
  by (relation "measure (\<lambda>(re, pos, s). length s)") auto

declare replace_all.simps [simp del]

text \<open>
  \<open>txt.split(/\r?\n/)\<close>: the text is cut at every line feed, and a carriage return
  directly before the line feed belongs to the separator. \<open>cur\<close> is the piece being read.
\<close>

fun split_lines_from :: "jsstring \<Rightarrow> jsstring \<Rightarrow> jsstring list" where
  "split_lines_from cur [] = [cur]"
| "split_lines_from cur [c] = (if c = 0x0A then [cur, []] else [cur @ [c]])"
| "split_lines_from cur (c # d # cs) =
     (if c = 0x0D \<and> d = 0x0A then cur # split_lines_from [] cs
      else if c = 0x0A then cur # split_lines_from [] (d # cs)
      else split_lines_from (cur @ [c]) (d # cs))"

definition split_lines :: "jsstring \<Rightarrow> jsstring list" where
  "split_lines txt = split_lines_from [] txt"

section \<open>The extractor: the scan of \<open>ToDoReader.loadFile\<close>\<close>

text \<open>
  \<open>match && match[1]?.trim()\<close>: nothing when the expression does not match or the group
  took no part, the trimmed capture otherwise.
\<close>

definition matchText :: "node list \<Rightarrow> jsstring \<Rightarrow> jsstring option" where
  "matchText re lineText =
     (case search re 0 lineText of
        None \<Rightarrow> None
      | Some (cap, rest) \<Rightarrow> map_option trim cap)"

text \<open>
  The inner loop over the expressions: the first one whose trimmed capture is a
  non-empty string ends the loop (\<open>foundMatch = true; break\<close>).
\<close>

fun try_regexes :: "node list list \<Rightarrow> jsstring \<Rightarrow> jsstring option" where
  "try_regexes [] lineText = None"
| "try_regexes (re # res) lineText =
     (case matchText re lineText of
        None \<Rightarrow> try_regexes res lineText
      | Some t \<Rightarrow> if t \<noteq> [] then Some t else try_regexes res lineText)"

text \<open>The read-ahead loop under a bare marker: it pushes lines until an empty one.\<close>

function readahead_loop :: "jsstring list \<Rightarrow> nat \<Rightarrow> jsval list \<Rightarrow> jsval list" where
  "readahead_loop lines readahead items =
     (if readahead < length lines then
        (let readaheadText = lines ! readahead in
         if readaheadText \<noteq> [] then readahead_loop lines (readahead + 1) (items @ [Str readaheadText])
         else items)
      else items)"
  by pat_completeness auto
termination
  by (relation "measure (\<lambda>(lines, readahead, items). length lines - readahead)") auto

declare readahead_loop.simps [simp del]

text \<open>
  The loop over the lines. \<open>lines[lineIdx - 1]\<close> is read with \<open>at\<close>: at \<open>lineIdx = 0\<close>
  the index is \<open>-1\<close>, the read gives \<open>undefined\<close>, \<open>undefined !== ""\<close> holds, and
  \<open>undefined\<close> is pushed.
\<close>

function lines_loop :: "jsstring list \<Rightarrow> nat \<Rightarrow> jsval list \<Rightarrow> jsval list" where
  "lines_loop lines lineIdx items =
     (if lineIdx < length lines then
        (let lineText = lines ! lineIdx in
         case try_regexes TODO_REGEXES lineText of
           Some t \<Rightarrow> lines_loop lines (lineIdx + 1) (items @ [Str t])
         | None \<Rightarrow>
             if lineText = jsstr ''TODO'' then
               (if at lines (int lineIdx - 1) \<noteq> Some [] then
                  lines_loop lines (lineIdx + 1) (items @ [jsval_of (at lines (int lineIdx - 1))])
                else lines_loop lines (lineIdx + 1) (readahead_loop lines (lineIdx + 1) items))
             else lines_loop lines (lineIdx + 1) items)
      else items)"
  by pat_completeness auto
termination
  by (relation "measure (\<lambda>(lines, lineIdx, items). length lines - lineIdx)") auto

declare lines_loop.simps [simp del]

definition scan_lines :: "jsstring list \<Rightarrow> jsval list" where
  "scan_lines lines = lines_loop lines 0 []"

text \<open>
  The text that reaches the scan. \<open>removeMd\<close> is the package remove-markdown, which is
  not part of the repository: it is the parameter \<open>rm\<close>.
\<close>

definition lines_of :: "(jsstring \<Rightarrow> jsstring) \<Rightarrow> jsstring \<Rightarrow> jsstring list" where
  "lines_of rm md = map trim (split_lines (rm (replace_all LINK_REGEX 0 md)))"

definition extract_todos :: "(jsstring \<Rightarrow> jsstring) \<Rightarrow> jsstring \<Rightarrow> jsval list" where
  "extract_todos rm md = scan_lines (lines_of rm md)"

section \<open>Files and their names\<close>

text \<open>
  \<open>TAbstractFile\<close> is the host's file object; the plugin reads its \<open>path\<close> (the key of
  the index) and its \<open>name\<close> (the file name, extension included).
\<close>

record TAbstractFile =
  path :: jsstring
  name :: jsstring

record IToDoGroup =
  file' :: TAbstractFile
  items :: "jsval list"

text \<open>
  \<open>path.extname\<close> and \<open>path.basename\<close> belong to the runtime's \<open>path\<close> module, not to
  the repository. They are written here after the module's POSIX behaviour: the last
  portion of a path is what follows its last slash, trailing slashes aside; the extension
  starts at the last dot of that portion, unless the portion starts with that dot or is
  \<open>..\<close>; \<open>basename p suffix\<close> is the last portion without the suffix.
\<close>

definition last_portion :: "jsstring \<Rightarrow> jsstring" where
  "last_portion p = rev (takeWhile (\<lambda>c. c \<noteq> 0x2F) (dropWhile (\<lambda>c. c = 0x2F) (rev p)))"

definition extname :: "jsstring \<Rightarrow> jsstring" where
  "extname p =
     (let b = last_portion p;
          e = rev (takeWhile (\<lambda>c. c \<noteq> 0x2E) (rev b));
          stem = take (length b - length e - 1) b
      in if 0x2E \<notin> set b \<or> stem = [] \<or> b = jsstr ''..'' then [] else 0x2E # e)"

definition basename :: "jsstring \<Rightarrow> jsstring \<Rightarrow> jsstring" where
  "basename p suffix =
     (let b = last_portion p in
      if suffix \<noteq> [] \<and> length suffix \<le> length p then
        (if suffix = p then []
         else if b \<noteq> suffix \<and> drop (length b - length suffix) b = suffix
           then take (length b - length suffix) b
         else b)
      else b)"

definition getBaseName :: "jsstring \<Rightarrow> jsstring" where
  "getBaseName filename = basename filename (extname filename)"

section \<open>The index: \<open>ToDoReader\<close>\<close>

text \<open>
  \<open>_dict\<close> is an object used as a dictionary from paths to a group or \<open>null\<close>. It is an
  association list in the order of insertion, the order in which \<open>Object.values\<close> lists
  the properties of such keys: an assignment to a present key keeps its place, an
  assignment to a new key appends, \<open>delete\<close> removes the key. \<open>None\<close> as a value is
  \<open>null\<close>; a key that is not in the list reads \<open>undefined\<close>. The keys are the paths of
  notes: a path that is an array index, or the name of a property that every object
  inherits, is outside the model.
\<close>

type_synonym dict = "(jsstring \<times> IToDoGroup option) list"

definition dict_set :: "dict \<Rightarrow> jsstring \<Rightarrow> IToDoGroup option \<Rightarrow> dict" where
  "dict_set d k v =
     (if k \<in> fst ` set d then map (\<lambda>(k', v'). if k' = k then (k', v) else (k', v')) d
      else d @ [(k, v)])"

definition dict_delete :: "dict \<Rightarrow> jsstring \<Rightarrow> dict" where
  "dict_delete d k = filter (\<lambda>(k', v'). k' \<noteq> k) d"

definition toDoGroupSorter :: "IToDoGroup \<Rightarrow> IToDoGroup \<Rightarrow> int" where
  "toDoGroupSorter us them =
     (if name (file' us) = name (file' them) then 0
      else if name (file' us) > name (file' them) then 1
      else - 1)"

text \<open>
  \<open>Array.prototype.sort\<close> with a comparison function: a stable sort, here by insertion.
  An element goes before the first element that the comparison does not put before it.
\<close>

fun sort_insert :: "('a \<Rightarrow> 'a \<Rightarrow> int) \<Rightarrow> 'a \<Rightarrow> 'a list \<Rightarrow> 'a list" where
  "sort_insert cmp x [] = [x]"
| "sort_insert cmp x (y # ys) = (if cmp x y \<le> 0 then x # y # ys else y # sort_insert cmp x ys)"

fun array_sort :: "('a \<Rightarrow> 'a \<Rightarrow> int) \<Rightarrow> 'a list \<Rightarrow> 'a list" where
  "array_sort cmp [] = []"
| "array_sort cmp (x # xs) = sort_insert cmp x (array_sort cmp xs)"

text \<open>
  \<open>Object.values(this._dict).filter((x) => x !== null)\<close>: the groups that are present,
  in the order of the dictionary.
\<close>

definition present_groups :: "dict \<Rightarrow> IToDoGroup list" where
  "present_groups d = map the (filter (\<lambda>x. x \<noteq> None) (map snd d))"

definition getFilesInOrder :: "dict \<Rightarrow> IToDoGroup list" where
  "getFilesInOrder d = array_sort toDoGroupSorter (present_groups d)"

text \<open>\<open>this._dict[path] || undefined\<close>: a group, or nothing for \<open>null\<close> and for a missing key.\<close>

definition getFileFor :: "dict \<Rightarrow> jsstring \<Rightarrow> IToDoGroup option" where
  "getFileFor d p = (case map_of d p of Some (Some g) \<Rightarrow> Some g | _ \<Rightarrow> None)"

text \<open>
  \<open>loadFile\<close>: the scan, then the assignment to the key \<open>file.path\<close> of a group when there
  are items and of \<open>null\<close> when there are none.
\<close>

definition loadFile :: "(jsstring \<Rightarrow> jsstring) \<Rightarrow> TAbstractFile \<Rightarrow> jsstring \<Rightarrow> dict \<Rightarrow> dict" where
  "loadFile rm f md d =
     (let its = extract_todos rm md in
      dict_set d (path f) (if length its > 0 then Some \<lparr>file' = f, items = its\<rparr> else None))"

text \<open>
  The host, as far as the reader asks it: \<open>editorValue p\<close> is the text of the editor of an
  open markdown leaf that shows \<open>p\<close> (\<open>getMatchingLeaf\<close>, then \<open>editor.getValue()\<close>),
  \<open>vaultRead p\<close> the text that \<open>app.vault.adapter.read(p)\<close> resolves to, \<open>None\<close> when the
  promise is rejected. The methods are \<open>async\<close>. \<open>loadFileFromDisk\<close>,
  \<open>loadFileFromWorkspace\<close> and \<open>updateFile\<close> below give the dictionary once the read of
  the vault that the call may start has settled, one call after the other.
\<close>

record App =
  editorValue :: "jsstring \<Rightarrow> jsstring option"
  vaultRead :: "jsstring \<Rightarrow> jsstring option"

definition loadFileFromDisk :: "(jsstring \<Rightarrow> jsstring) \<Rightarrow> App \<Rightarrow> TAbstractFile \<Rightarrow> dict \<Rightarrow> dict" where
  "loadFileFromDisk rm app f d =
     (if extname (path f) \<noteq> jsstr ''.md'' then d
      else case vaultRead app (path f) of
             None \<Rightarrow> d
           | Some md \<Rightarrow> loadFile rm f md d)"

definition loadFileFromWorkspace :: "(jsstring \<Rightarrow> jsstring) \<Rightarrow> App \<Rightarrow> TAbstractFile \<Rightarrow> dict \<Rightarrow> dict" where
  "loadFileFromWorkspace rm app f d =
     (case editorValue app (path f) of
        None \<Rightarrow> loadFileFromDisk rm app f d
      | Some viewContent \<Rightarrow>
          if viewContent \<noteq> [] then loadFile rm f viewContent d
          else loadFileFromDisk rm app f d)"

definition updateFile :: "(jsstring \<Rightarrow> jsstring) \<Rightarrow> App \<Rightarrow> TAbstractFile \<Rightarrow> dict \<Rightarrow> dict" where
  "updateFile rm app f d = loadFileFromWorkspace rm app f d"

definition deleteFile :: "TAbstractFile \<Rightarrow> dict \<Rightarrow> dict" where
  "deleteFile f d = dict_delete d (path f)"

text \<open>
  \<open>renameFile\<close> deletes the old key and calls \<open>updateFile\<close>, and nothing in this chain is
  awaited. What runs before \<open>renameFile\<close> returns is the deletion and, when an open editor
  gives a text, the \<open>loadFile\<close> of that text. Otherwise \<open>loadFileFromDisk\<close> has only
  started the read of the vault when \<open>renameFile\<close> returns: nothing is stored before that
  read has settled. \<open>updateFile_started\<close> and \<open>renameFile_started\<close> are the dictionary at
  the moment the call returns; \<open>renameFile_settled\<close> is the dictionary once the read that
  the call started has settled, no other call coming in between.
\<close>

definition updateFile_started :: "(jsstring \<Rightarrow> jsstring) \<Rightarrow> App \<Rightarrow> TAbstractFile \<Rightarrow> dict \<Rightarrow> dict" where
  "updateFile_started rm app f d =
     (case editorValue app (path f) of
        None \<Rightarrow> d
      | Some viewContent \<Rightarrow> if viewContent \<noteq> [] then loadFile rm f viewContent d else d)"

definition renameFile_started :: "(jsstring \<Rightarrow> jsstring) \<Rightarrow> App \<Rightarrow> TAbstractFile \<Rightarrow> jsstring \<Rightarrow> dict \<Rightarrow> dict" where
  "renameFile_started rm app f filename d = updateFile_started rm app f (dict_delete d filename)"

definition renameFile_settled :: "(jsstring \<Rightarrow> jsstring) \<Rightarrow> App \<Rightarrow> TAbstractFile \<Rightarrow> jsstring \<Rightarrow> dict \<Rightarrow> dict" where
  "renameFile_settled rm app f filename d = updateFile rm app f (dict_delete d filename)"

text \<open>
  \<open>loadAllFiles\<close> starts one load from the vault for each file and waits for all of them;
  the loads are taken in the order of the list.
\<close>

definition loadAllFiles :: "(jsstring \<Rightarrow> jsstring) \<Rightarrow> App \<Rightarrow> TAbstractFile list \<Rightarrow> dict \<Rightarrow> dict" where
  "loadAllFiles rm app files d = fold (loadFileFromDisk rm app) files d"

text \<open>
  The calls the plugin makes on its reader: \<open>loadAllFiles\<close> once the layout is ready, then
  one call for each event of the vault (create and modify: \<open>updateFile\<close>; delete:
  \<open>deleteFile\<close>; rename: \<open>renameFile\<close>), each call taken with the read it starts
  settled. The reader starts with an empty dictionary.
\<close>

datatype call =
    LoadAllFiles App "TAbstractFile list"
  | UpdateFile App TAbstractFile
  | DeleteFile TAbstractFile
  | RenameFile App TAbstractFile jsstring

fun perform :: "(jsstring \<Rightarrow> jsstring) \<Rightarrow> dict \<Rightarrow> call \<Rightarrow> dict" where
  "perform rm d (LoadAllFiles app files) = loadAllFiles rm app files d"
| "perform rm d (UpdateFile app f) = updateFile rm app f d"
| "perform rm d (DeleteFile f) = deleteFile f d"
| "perform rm d (RenameFile app f filename) = renameFile_settled rm app f filename d"

definition reader_after :: "(jsstring \<Rightarrow> jsstring) \<Rightarrow> call list \<Rightarrow> dict" where
  "reader_after rm calls = foldl (perform rm) [] calls"

text \<open>
  The text that \<open>loadFileFromWorkspace\<close> hands to \<open>loadFile\<close> for a file: the editor's when
  a leaf shows the file and its text is not empty, the vault's otherwise, if the path ends
  in \<open>.md\<close> and the read succeeds.
\<close>

definition current_text :: "App \<Rightarrow> TAbstractFile \<Rightarrow> jsstring option" where
  "current_text app f =
     (let disk = (if extname (path f) = jsstr ''.md'' then vaultRead app (path f) else None)
      in case editorValue app (path f) of
           None \<Rightarrow> disk
         | Some viewContent \<Rightarrow> if viewContent \<noteq> [] then Some viewContent else disk)"

text \<open>
  What every dictionary that the reader can hold satisfies: a key occurs once, and a group
  is stored under the path of its own file and has at least one item.
\<close>

definition dict_inv :: "dict \<Rightarrow> bool" where
  "dict_inv d \<longleftrightarrow>
     distinct (map fst d) \<and>
     (\<forall>k g. (k, Some g) \<in> set d \<longrightarrow> path (file' g) = k \<and> items g \<noteq> [])"


section \<open>The labeled pattern, as the specification words it\<close>

text \<open>
  The labeled pattern is the marker followed by a colon, white space allowed between the
  two. \<open>labeled_prefix s\<close> is the text after the colon when \<open>s\<close> starts with the pattern;
  \<open>labeled_tails s\<close> lists, from left to right, the text after every occurrence of the
  pattern in \<open>s\<close>. Neither is part of the plugin: they state what is claimed about it.
\<close>

definition labeled_prefix :: "jsstring \<Rightarrow> jsstring option" where
  "labeled_prefix s =
     (if take 4 s = jsstr ''TODO'' then
        (case dropWhile isSpace (drop 4 s) of
           [] \<Rightarrow> None
         | c # r \<Rightarrow> if c = 0x3A then Some r else None)
      else None)"

fun labeled_tails :: "jsstring \<Rightarrow> jsstring list" where
  "labeled_tails [] = []"
| "labeled_tails (c # cs) =
     (case labeled_prefix (c # cs) of
        None \<Rightarrow> labeled_tails cs
      | Some r \<Rightarrow> r # labeled_tails cs)"

text \<open>
  What the specification says of an item: a string that is not empty and equals its own
  trim.
\<close>

definition item_ok :: "jsval \<Rightarrow> bool" where
  "item_ok v = (case v of Undefined \<Rightarrow> False | Str s \<Rightarrow> s \<noteq> [] \<and> trim s = s)"

section \<open>Example documents\<close>

definition file_a :: TAbstractFile where
  "file_a = \<lparr>path = jsstr ''a.md'', name = jsstr ''a.md''\<rparr>"

definition file_b :: TAbstractFile where
  "file_b = \<lparr>path = jsstr ''b.md'', name = jsstr ''b.md''\<rparr>"

definition file_ab :: TAbstractFile where
  "file_ab = \<lparr>path = jsstr ''a-b.md'', name = jsstr ''a-b.md''\<rparr>"

text \<open>A host with no open editor, whose vault holds three notes.\<close>

definition vault_ex :: "jsstring \<Rightarrow> jsstring option" where
  "vault_ex p =
     (if p = jsstr ''a.md'' then Some (jsstr ''TODO: buy milk'')
      else if p = jsstr ''b.md'' then Some (jsstr ''call mom TODO'')
      else if p = jsstr ''a-b.md'' then Some (jsstr ''TODO: water the plants'')
      else None)"

definition app_ex :: App where
  "app_ex = \<lparr>editorValue = (\<lambda>p. None), vaultRead = vault_ex\<rparr>"

text \<open>The same host after the note \<open>a.md\<close> has lost its marker.\<close>

definition app_cleared :: App where
  "app_cleared = \<lparr>editorValue = (\<lambda>p. if p = jsstr ''a.md'' then Some (jsstr ''milk bought'') else None),
                  vaultRead = vault_ex\<rparr>"

section \<open>The scan on the documents of the specification\<close>

lemma link_free_milk:
  "replace_all LINK_REGEX 0 (jsstr ''TODO: buy milk TODO'') = jsstr ''TODO: buy milk TODO''"
  by code_simp

lemma scan_milk:
  "scan_lines (map trim (split_lines (jsstr ''TODO: buy milk TODO''))) = [Str (jsstr ''buy milk TODO'')]"
  by code_simp

lemma trailing_rule_milk:
  "matchText RE_TRAILING (jsstr ''TODO: buy milk TODO'') = Some (jsstr ''TODO: buy milk'')"
  by code_simp

lemma labeled_rule_milk:
  "matchText RE_LABELED (jsstr ''TODO: buy milk TODO'') = Some (jsstr ''buy milk TODO'')"
  by code_simp

lemma labeled_rule_first:
  assumes "matchText RE_LABELED lineText = Some a" and "a \<noteq> []"
  shows "try_regexes TODO_REGEXES lineText = Some a"
  using assms by (simp add: TODO_REGEXES_def)

lemma lines_loop_labeled:
  assumes "i < length lines" and "matchText RE_LABELED (lines ! i) = Some a" and "a \<noteq> []"
  shows "lines_loop lines i its = lines_loop lines (i + 1) (its @ [Str a])"
proof -
  have "try_regexes TODO_REGEXES (lines ! i) = Some a"
    using assms(2,3) by (rule labeled_rule_first)
  then show ?thesis
    using assms(1) by (subst lines_loop.simps) simp
qed

text \<open>
  C4. Rule priority. For the one-line document \<open>TODO: buy milk TODO\<close>, which the markdown
  remover leaves as it is, the extractor returns the single item \<open>buy milk TODO\<close>. In
  general, a line on which both the labeled rule (the first expression) and the trailing
  rule (the second expression) give a non-empty trimmed capture resolves via the labeled
  rule: the loop over the expressions returns the labeled capture, and the loop over the
  lines pushes it and goes to the next line.
\<close>

theorem rule_priority_labeled_over_trailing:
  "(rm (jsstr ''TODO: buy milk TODO'') = jsstr ''TODO: buy milk TODO'' \<longrightarrow>
      extract_todos rm (jsstr ''TODO: buy milk TODO'') = [Str (jsstr ''buy milk TODO'')]) \<and>
   (\<forall>lines i its a b.
      i < length lines \<and> matchText RE_LABELED (lines ! i) = Some a \<and> a \<noteq> [] \<and>
      matchText RE_TRAILING (lines ! i) = Some b \<and> b \<noteq> [] \<longrightarrow>
      try_regexes TODO_REGEXES (lines ! i) = Some a \<and>
      lines_loop lines i its = lines_loop lines (i + 1) (its @ [Str a]))"
proof (intro conjI impI allI)
  assume "rm (jsstr ''TODO: buy milk TODO'') = jsstr ''TODO: buy milk TODO''"
  then show "extract_todos rm (jsstr ''TODO: buy milk TODO'') = [Str (jsstr ''buy milk TODO'')]"
    by (simp add: extract_todos_def lines_of_def link_free_milk scan_milk)
next
  fix lines :: "jsstring list" and i its a b
  assume h: "i < length lines \<and> matchText RE_LABELED (lines ! i) = Some a \<and> a \<noteq> [] \<and>
      matchText RE_TRAILING (lines ! i) = Some b \<and> b \<noteq> []"
  then show "try_regexes TODO_REGEXES (lines ! i) = Some a"
    by (simp add: labeled_rule_first)
  from h show "lines_loop lines i its = lines_loop lines (i + 1) (its @ [Str a])"
    by (simp add: lines_loop_labeled)
qed

theorem rule_priority_labeled_over_trailing_witness:
  "extract_todos (\<lambda>x. x) (jsstr ''TODO: buy milk TODO'') = [Str (jsstr ''buy milk TODO'')] \<and>
   matchText RE_TRAILING (jsstr ''TODO: buy milk TODO'') = Some (jsstr ''TODO: buy milk'') \<and>
   try_regexes TODO_REGEXES (jsstr ''TODO: buy milk TODO'') = Some (jsstr ''buy milk TODO'') \<and>
   lines_loop [jsstr ''TODO: buy milk TODO''] 0 [] =
     lines_loop [jsstr ''TODO: buy milk TODO''] 1 [Str (jsstr ''buy milk TODO'')]"
proof -
  have ne: "jsstr ''buy milk TODO'' \<noteq> []" "jsstr ''TODO: buy milk'' \<noteq> []"
    by (simp_all add: jsstr_def)
  have p1: "extract_todos (\<lambda>x. x) (jsstr ''TODO: buy milk TODO'') = [Str (jsstr ''buy milk TODO'')]"
    by (rule rule_priority_labeled_over_trailing [of "\<lambda>x. x", THEN conjunct1, rule_format]) (rule refl)
  have p2: "try_regexes TODO_REGEXES ([jsstr ''TODO: buy milk TODO''] ! 0) = Some (jsstr ''buy milk TODO'') \<and>
      lines_loop [jsstr ''TODO: buy milk TODO''] 0 [] =
        lines_loop [jsstr ''TODO: buy milk TODO''] (0 + 1) ([] @ [Str (jsstr ''buy milk TODO'')])"
    by (rule rule_priority_labeled_over_trailing [THEN conjunct2, rule_format,
          where b = "jsstr ''TODO: buy milk''"])
       (simp add: labeled_rule_milk trailing_rule_milk ne)
  from p1 p2 trailing_rule_milk show ?thesis
    by simp
qed

lemma scan_forward:
  "scan_lines (map jsstr ['''', ''TODO'', ''call mom'', ''call dad'', '''']) =
     [Str (jsstr ''call mom''), Str (jsstr ''call dad'')]"
  by code_simp

lemma lines_of_forward:
  "lines_of (\<lambda>x. x) ([0x0A] @ jsstr ''TODO'' @ [0x0D, 0x0A] @ jsstr ''  call mom'' @ [0x0A] @
       jsstr ''call dad '' @ [0x0A]) =
     map jsstr ['''', ''TODO'', ''call mom'', ''call dad'', '''']"
  by code_simp

text \<open>
  C5. Bare marker, forward scan. For every document whose trimmed lines are
  \<open>["", "TODO", "call mom", "call dad", ""]\<close> the extractor returns exactly the items
  \<open>call mom\<close> and \<open>call dad\<close>, in that order.
\<close>

theorem bare_marker_forward_scan:
  "lines_of rm md = map jsstr ['''', ''TODO'', ''call mom'', ''call dad'', ''''] \<Longrightarrow>
   extract_todos rm md = [Str (jsstr ''call mom''), Str (jsstr ''call dad'')]"
  by (simp only: extract_todos_def scan_forward)

theorem bare_marker_forward_scan_witness:
  "lines_of (\<lambda>x. x) ([0x0A] @ jsstr ''TODO'' @ [0x0D, 0x0A] @ jsstr ''  call mom'' @ [0x0A] @
       jsstr ''call dad '' @ [0x0A]) =
     map jsstr ['''', ''TODO'', ''call mom'', ''call dad'', ''''] \<and>
   extract_todos (\<lambda>x. x) ([0x0A] @ jsstr ''TODO'' @ [0x0D, 0x0A] @ jsstr ''  call mom'' @ [0x0A] @
       jsstr ''call dad '' @ [0x0A]) =
     [Str (jsstr ''call mom''), Str (jsstr ''call dad'')]"
  using bare_marker_forward_scan [OF lines_of_forward] lines_of_forward by simp



lemma bare_marker_no_rule: "try_regexes TODO_REGEXES (jsstr ''TODO'') = None"
  by code_simp










text \<open>
  C1. A document whose first line is the bare marker. The previous line is read at index
  \<open>-1\<close>, which gives \<open>undefined\<close>; this is not the empty string, so \<open>undefined\<close> is pushed
  and the forward scan is skipped. For the two lines \<open>TODO\<close> and \<open>call mom\<close> the
  extractor returns the single item \<open>undefined\<close>, and not \<open>call mom\<close>.
\<close>

theorem first_line_bare_marker_pushes_undefined:
  "extract_todos (\<lambda>x. x) (jsstr ''TODO'' @ [0x0A] @ jsstr ''call mom'') = [Undefined]"
  by code_simp

text \<open>
  C2. The items of a document are not always strings: for the document that consists of
  the bare marker alone, the extractor returns one item, and it is \<open>undefined\<close>.
\<close>

theorem items_hold_undefined:
  "extract_todos (\<lambda>x. x) (jsstr ''TODO'') = [Undefined]"
  by code_simp

section \<open>The dictionary\<close>

lemma map_of_dict_delete: "map_of (dict_delete d k) q = (if q = k then None else map_of d q)"
  by (induction d) (auto simp: dict_delete_def)

lemma map_of_replace:
  "map_of (map (\<lambda>(k', v'). if k' = k then (k', v) else (k', v')) d) q =
     (if q = k then (if k \<in> fst ` set d then Some v else None) else map_of d q)"
  by (induction d) force+

lemma map_of_dict_set: "map_of (dict_set d k v) q = (if q = k then Some v else map_of d q)"
proof (cases "k \<in> fst ` set d")
  case True
  then show ?thesis
    by (simp add: dict_set_def map_of_replace)
next
  case False
  then have "map_of d k = None"
    by (simp add: map_of_eq_None_iff)
  with False show ?thesis
    by (auto simp: dict_set_def map_add_def split: option.splits)
qed

lemma dict_delete_absent: "k \<notin> fst ` set d \<Longrightarrow> dict_delete d k = d"
  by (induction d) (auto simp: dict_delete_def)

lemma getFileFor_dict_set:
  "getFileFor (dict_set d k v) q = (if q = k then v else getFileFor d q)"
  by (cases v) (simp_all add: getFileFor_def map_of_dict_set)

lemma getFileFor_dict_delete:
  "getFileFor (dict_delete d k) q = (if q = k then None else getFileFor d q)"
  by (simp add: getFileFor_def map_of_dict_delete)

lemma loadFileFromDisk_cases:
  "loadFileFromDisk rm app f d = d \<or> (\<exists>md. loadFileFromDisk rm app f d = loadFile rm f md d)"
  by (auto simp: loadFileFromDisk_def split: option.splits)

lemma loadFileFromWorkspace_current_text:
  "loadFileFromWorkspace rm app f d =
     (case current_text app f of None \<Rightarrow> d | Some md \<Rightarrow> loadFile rm f md d)"
  by (auto simp: loadFileFromWorkspace_def loadFileFromDisk_def current_text_def
      split: option.splits)

lemma map_of_loadFile_other: "path f \<noteq> q \<Longrightarrow> map_of (loadFile rm f md d) q = map_of d q"
  by (simp add: loadFile_def Let_def map_of_dict_set)

lemma map_of_loadFileFromDisk_other:
  "path f \<noteq> q \<Longrightarrow> map_of (loadFileFromDisk rm app f d) q = map_of d q"
  using loadFileFromDisk_cases [of rm app f d] by (auto simp: map_of_loadFile_other)

lemma map_of_updateFile_other:
  "path f \<noteq> q \<Longrightarrow> map_of (updateFile rm app f d) q = map_of d q"
  by (simp add: updateFile_def loadFileFromWorkspace_current_text map_of_loadFile_other
      split: option.splits)

lemma map_of_deleteFile_other: "path f \<noteq> q \<Longrightarrow> map_of (deleteFile f d) q = map_of d q"
  by (simp add: deleteFile_def map_of_dict_delete)

lemma getFileFor_cong: "map_of d q = map_of e q \<Longrightarrow> getFileFor d q = getFileFor e q"
  by (simp add: getFileFor_def)

text \<open>
  C10. Frame property. For every dictionary and every two distinct paths \<open>p\<close> (the path of
  the file \<open>f\<close>) and \<open>q\<close>: a load of \<open>f\<close> with any text, a load of \<open>f\<close> from the vault, an
  update of \<open>f\<close> and a removal of \<open>f\<close> leave the entry at \<open>q\<close> as it was (the stored value,
  and so the result of the lookup). Removing a path that is not in the dictionary leaves
  the whole dictionary unchanged.
\<close>

theorem frame_other_paths:
  "(path f \<noteq> q \<longrightarrow>
      map_of (loadFile rm f md d) q = map_of d q \<and>
      getFileFor (loadFile rm f md d) q = getFileFor d q \<and>
      map_of (loadFileFromDisk rm app f d) q = map_of d q \<and>
      getFileFor (loadFileFromDisk rm app f d) q = getFileFor d q \<and>
      map_of (updateFile rm app f d) q = map_of d q \<and>
      getFileFor (updateFile rm app f d) q = getFileFor d q \<and>
      map_of (deleteFile f d) q = map_of d q \<and>
      getFileFor (deleteFile f d) q = getFileFor d q) \<and>
   (path f \<notin> fst ` set d \<longrightarrow> deleteFile f d = d)"
proof (intro conjI impI)
  assume "path f \<notin> fst ` set d"
  then show "deleteFile f d = d"
    by (simp add: deleteFile_def dict_delete_absent)
next
  assume ne: "path f \<noteq> q"
  show "map_of (loadFile rm f md d) q = map_of d q"
    using ne by (rule map_of_loadFile_other)
  then show "getFileFor (loadFile rm f md d) q = getFileFor d q"
    by (rule getFileFor_cong)
  show "map_of (loadFileFromDisk rm app f d) q = map_of d q"
    using ne by (rule map_of_loadFileFromDisk_other)
  then show "getFileFor (loadFileFromDisk rm app f d) q = getFileFor d q"
    by (rule getFileFor_cong)
  show "map_of (updateFile rm app f d) q = map_of d q"
    using ne by (rule map_of_updateFile_other)
  then show "getFileFor (updateFile rm app f d) q = getFileFor d q"
    by (rule getFileFor_cong)
  show "map_of (deleteFile f d) q = map_of d q"
    using ne by (rule map_of_deleteFile_other)
  then show "getFileFor (deleteFile f d) q = getFileFor d q"
    by (rule getFileFor_cong)
qed

lemma path_file_a_not_b: "path file_a \<noteq> jsstr ''b.md''"
  by (simp add: file_a_def jsstr_def)

lemma tracked_b:
  "reader_after (\<lambda>x. x) [UpdateFile app_ex file_b] =
     [(jsstr ''b.md'', Some \<lparr>file' = file_b, items = [Str (jsstr ''call mom'')]\<rparr>)]"
  by code_simp

lemma file_a_untracked:
  "path file_a \<notin> fst ` set (reader_after (\<lambda>x. x) [UpdateFile app_ex file_b])"
  by (simp add: tracked_b file_a_def jsstr_def)

theorem frame_other_paths_witness:
  "getFileFor (reader_after (\<lambda>x. x) [UpdateFile app_ex file_b]) (jsstr ''b.md'') =
     Some \<lparr>file' = file_b, items = [Str (jsstr ''call mom'')]\<rparr> \<and>
   getFileFor (updateFile (\<lambda>x. x) app_ex file_a (reader_after (\<lambda>x. x) [UpdateFile app_ex file_b]))
       (jsstr ''b.md'') =
     Some \<lparr>file' = file_b, items = [Str (jsstr ''call mom'')]\<rparr> \<and>
   getFileFor (deleteFile file_a (reader_after (\<lambda>x. x) [UpdateFile app_ex file_b])) (jsstr ''b.md'') =
     Some \<lparr>file' = file_b, items = [Str (jsstr ''call mom'')]\<rparr> \<and>
   deleteFile file_a (reader_after (\<lambda>x. x) [UpdateFile app_ex file_b]) =
     reader_after (\<lambda>x. x) [UpdateFile app_ex file_b]"
proof -
  have here: "getFileFor (reader_after (\<lambda>x. x) [UpdateFile app_ex file_b]) (jsstr ''b.md'') =
      Some \<lparr>file' = file_b, items = [Str (jsstr ''call mom'')]\<rparr>"
    by (simp add: tracked_b getFileFor_def)
  note t = frame_other_paths [of file_a "jsstr ''b.md''" "\<lambda>x. x" _
      "reader_after (\<lambda>x. x) [UpdateFile app_ex file_b]" app_ex]
  from t path_file_a_not_b
  have "getFileFor (updateFile (\<lambda>x. x) app_ex file_a (reader_after (\<lambda>x. x) [UpdateFile app_ex file_b]))
       (jsstr ''b.md'') = getFileFor (reader_after (\<lambda>x. x) [UpdateFile app_ex file_b]) (jsstr ''b.md'')"
    by blast
  moreover from t path_file_a_not_b
  have "getFileFor (deleteFile file_a (reader_after (\<lambda>x. x) [UpdateFile app_ex file_b])) (jsstr ''b.md'') =
      getFileFor (reader_after (\<lambda>x. x) [UpdateFile app_ex file_b]) (jsstr ''b.md'')"
    by blast
  moreover from t file_a_untracked
  have "deleteFile file_a (reader_after (\<lambda>x. x) [UpdateFile app_ex file_b]) =
      reader_after (\<lambda>x. x) [UpdateFile app_ex file_b]"
    by blast
  ultimately show ?thesis
    using here by simp
qed

section \<open>Rename\<close>

lemma rename_started_old_path:
  "filename \<noteq> path f \<Longrightarrow> getFileFor (renameFile_started rm app f filename d) filename = None"
  by (simp add: renameFile_started_def updateFile_started_def loadFile_def Let_def
      getFileFor_dict_set getFileFor_dict_delete split: option.splits)

lemma rename_started_new_path:
  "filename \<noteq> path f \<Longrightarrow>
   getFileFor (renameFile_started rm app f filename d) (path f) =
     (case editorValue app (path f) of
        None \<Rightarrow> getFileFor d (path f)
      | Some viewContent \<Rightarrow>
          if viewContent = [] then getFileFor d (path f)
          else if extract_todos rm viewContent = [] then None
          else Some \<lparr>file' = f, items = extract_todos rm viewContent\<rparr>)"
  by (simp add: renameFile_started_def updateFile_started_def loadFile_def Let_def
      getFileFor_dict_set getFileFor_dict_delete split: option.splits)

lemma rename_settled_moves_entry:
  "filename \<noteq> path f \<and> current_text app f = Some md \<longrightarrow>
     getFileFor (renameFile_settled rm app f filename d) filename = None \<and>
     getFileFor (renameFile_settled rm app f filename d) (path f) =
       (if extract_todos rm md = [] then None
        else Some \<lparr>file' = f, items = extract_todos rm md\<rparr>)"
  by (simp add: renameFile_settled_def updateFile_def loadFileFromWorkspace_current_text
      loadFile_def Let_def getFileFor_dict_set getFileFor_dict_delete)

lemma tracked_a:
  "reader_after (\<lambda>x. x) [UpdateFile app_ex file_a] =
     [(jsstr ''a.md'', Some \<lparr>file' = file_a, items = [Str (jsstr ''buy milk'')]\<rparr>)]"
  by code_simp

lemma current_text_b: "current_text app_ex file_b = Some (jsstr ''call mom TODO'')"
  by code_simp

lemma extract_b: "extract_todos (\<lambda>x. x) (jsstr ''call mom TODO'') = [Str (jsstr ''call mom'')]"
  by code_simp

lemma no_editor_b: "editorValue app_ex (path file_b) = None"
  by (simp add: app_ex_def)

text \<open>
  C7. Rename of a note that no editor shows. The reader tracks \<open>a.md\<close>; the note is renamed
  to \<open>b.md\<close>, whose text in the vault is \<open>call mom TODO\<close>. When \<open>renameFile\<close> returns, the
  lookup of \<open>a.md\<close> finds nothing, and the lookup of \<open>b.md\<close> finds nothing either: the
  fresh extraction is stored only once the read of the vault has settled, and then the
  lookup of \<open>b.md\<close> gives the group with the item \<open>call mom\<close>.
\<close>

theorem rename_returns_before_new_entry:
  "getFileFor (reader_after (\<lambda>x. x) [UpdateFile app_ex file_a]) (jsstr ''a.md'') =
     Some \<lparr>file' = file_a, items = [Str (jsstr ''buy milk'')]\<rparr> \<and>
   path file_b = jsstr ''b.md'' \<and>
   current_text app_ex file_b = Some (jsstr ''call mom TODO'') \<and>
   extract_todos (\<lambda>x. x) (jsstr ''call mom TODO'') = [Str (jsstr ''call mom'')] \<and>
   getFileFor (renameFile_started (\<lambda>x. x) app_ex file_b (jsstr ''a.md'')
       (reader_after (\<lambda>x. x) [UpdateFile app_ex file_a])) (jsstr ''a.md'') = None \<and>
   getFileFor (renameFile_started (\<lambda>x. x) app_ex file_b (jsstr ''a.md'')
       (reader_after (\<lambda>x. x) [UpdateFile app_ex file_a])) (jsstr ''b.md'') = None \<and>
   getFileFor (renameFile_settled (\<lambda>x. x) app_ex file_b (jsstr ''a.md'')
       (reader_after (\<lambda>x. x) [UpdateFile app_ex file_a])) (jsstr ''b.md'') =
     Some \<lparr>file' = file_b, items = [Str (jsstr ''call mom'')]\<rparr>"
proof -
  let ?d = "reader_after (\<lambda>x. x) [UpdateFile app_ex file_a]"
  have pb: "path file_b = jsstr ''b.md''"
    by (simp add: file_b_def)
  have ne: "jsstr ''a.md'' \<noteq> path file_b"
    by (simp add: file_b_def jsstr_def)
  have here: "getFileFor ?d (jsstr ''a.md'') =
      Some \<lparr>file' = file_a, items = [Str (jsstr ''buy milk'')]\<rparr>"
    by (simp add: tracked_a getFileFor_def)
  have before: "getFileFor ?d (path file_b) = None"
    unfolding tracked_a pb by (simp add: getFileFor_def jsstr_def)
  have old: "getFileFor (renameFile_started (\<lambda>x. x) app_ex file_b (jsstr ''a.md'') ?d)
      (jsstr ''a.md'') = None"
    using ne by (rule rename_started_old_path)
  have new: "getFileFor (renameFile_started (\<lambda>x. x) app_ex file_b (jsstr ''a.md'') ?d)
      (path file_b) = None"
    unfolding rename_started_new_path [OF ne] no_editor_b by (simp add: before)
  have settled: "getFileFor (renameFile_settled (\<lambda>x. x) app_ex file_b (jsstr ''a.md'') ?d)
      (path file_b) = Some \<lparr>file' = file_b, items = [Str (jsstr ''call mom'')]\<rparr>"
    using rename_settled_moves_entry [of "jsstr ''a.md''" file_b app_ex "jsstr ''call mom TODO''"
        "\<lambda>x. x" ?d] ne current_text_b
    by (simp add: extract_b)
  show ?thesis
    by (intro conjI) (fact here pb current_text_b extract_b old new [unfolded pb] settled [unfolded pb])+
qed

section \<open>Enumeration\<close>

lemma mset_sort_insert: "mset (sort_insert cmp x ys) = add_mset x (mset ys)"
  by (induction ys) simp_all

lemma set_sort_insert: "set (sort_insert cmp x ys) = insert x (set ys)"
  by (induction ys) auto

lemma mset_array_sort: "mset (array_sort cmp xs) = mset xs"
  by (induction xs) (simp_all add: mset_sort_insert)

lemma set_array_sort: "set (array_sort cmp xs) = set xs"
  using mset_array_sort [of cmp xs] by (rule mset_eq_setD)

lemma toDoGroupSorter_le: "toDoGroupSorter us them \<le> 0 \<longleftrightarrow> name (file' us) \<le> name (file' them)"
  by (auto simp: toDoGroupSorter_def)

lemma sorted_sort_insert:
  "sorted (map (\<lambda>g. name (file' g)) ys) \<Longrightarrow>
   sorted (map (\<lambda>g. name (file' g)) (sort_insert toDoGroupSorter x ys))"
proof (induction ys)
  case Nil
  then show ?case by simp
next
  case (Cons y ys)
  show ?case
  proof (cases "toDoGroupSorter x y \<le> 0")
    case True
    then have "name (file' x) \<le> name (file' y)"
      by (simp add: toDoGroupSorter_le)
    with Cons.prems True show ?thesis
      by auto
  next
    case False
    then have yx: "name (file' y) \<le> name (file' x)"
      by (simp add: toDoGroupSorter_le)
    with Cons False show ?thesis
      by (auto simp: set_sort_insert)
  qed
qed

lemma sorted_array_sort: "sorted (map (\<lambda>g. name (file' g)) (array_sort toDoGroupSorter xs))"
  by (induction xs) (simp_all add: sorted_sort_insert)

text \<open>
  C3, as the code has it. For every dictionary, whatever the order in which its entries
  were put in, \<open>getFilesInOrder\<close> returns the groups that are present, each as often as it
  is present, in ascending order of the name of the file (the file name with its
  extension, compared code unit by code unit).
\<close>

theorem enumerate_sorted_by_file_name:
  "sorted (map (\<lambda>g. name (file' g)) (getFilesInOrder d)) \<and>
   mset (getFilesInOrder d) = mset (present_groups d)"
  by (simp add: getFilesInOrder_def sorted_array_sort mset_array_sort)

text \<open>
  C3, as the specification has it, fails. After the notes \<open>a.md\<close> and \<open>a-b.md\<close> have been
  indexed, the enumeration gives \<open>a-b.md\<close> first (a hyphen is smaller than a full stop), so
  the display names come as \<open>a-b\<close>, \<open>a\<close>, which is not ascending.
\<close>

theorem enumerate_not_sorted_by_display_name:
  "\<not> sorted (map (\<lambda>g. getBaseName (name (file' g)))
       (getFilesInOrder (reader_after (\<lambda>x. x) [UpdateFile app_ex file_a, UpdateFile app_ex file_ab])))"
  by code_simp

section \<open>Absence\<close>

lemma dict_inv_empty: "dict_inv []"
  by (simp add: dict_inv_def)

lemma dict_inv_delete: "dict_inv d \<Longrightarrow> dict_inv (dict_delete d k)"
  by (auto simp: dict_inv_def dict_delete_def distinct_map_filter)

lemma fst_replace:
  "map (fst \<circ> (\<lambda>(k', v'). if k' = k then (k', v) else (k', v'))) d = map fst d"
  by (induction d) auto

lemma set_dict_set:
  "(k', w) \<in> set (dict_set d k v) \<Longrightarrow> (k' = k \<and> w = v) \<or> (k' \<noteq> k \<and> (k', w) \<in> set d)"
  by (force simp: dict_set_def split: if_splits)

lemma dict_inv_set:
  assumes "dict_inv d" and "\<And>g. v = Some g \<Longrightarrow> path (file' g) = k \<and> items g \<noteq> []"
  shows "dict_inv (dict_set d k v)"
proof -
  have "distinct (map fst (dict_set d k v))"
    using assms(1) by (auto simp: dict_inv_def dict_set_def fst_replace)
  moreover have "path (file' g) = k' \<and> items g \<noteq> []" if "(k', Some g) \<in> set (dict_set d k v)" for k' g
    using set_dict_set [OF that] assms by (auto simp: dict_inv_def)
  ultimately show ?thesis
    by (simp add: dict_inv_def)
qed

lemma dict_inv_loadFile: "dict_inv d \<Longrightarrow> dict_inv (loadFile rm f md d)"
  by (auto simp: loadFile_def Let_def intro!: dict_inv_set)

lemma dict_inv_loadFileFromDisk: "dict_inv d \<Longrightarrow> dict_inv (loadFileFromDisk rm app f d)"
  using loadFileFromDisk_cases [of rm app f d] by (auto simp: dict_inv_loadFile)

lemma dict_inv_updateFile: "dict_inv d \<Longrightarrow> dict_inv (updateFile rm app f d)"
  by (simp add: updateFile_def loadFileFromWorkspace_current_text dict_inv_loadFile
      split: option.splits)

lemma dict_inv_loadAllFiles: "dict_inv d \<Longrightarrow> dict_inv (loadAllFiles rm app files d)"
  unfolding loadAllFiles_def
  by (induction files arbitrary: d) (simp_all add: dict_inv_loadFileFromDisk)

lemma dict_inv_perform: "dict_inv d \<Longrightarrow> dict_inv (perform rm d c)"
  by (cases c)
    (simp_all add: dict_inv_loadAllFiles dict_inv_updateFile deleteFile_def dict_inv_delete
      renameFile_settled_def)

lemma dict_inv_foldl: "dict_inv d \<Longrightarrow> dict_inv (foldl (perform rm) d calls)"
  by (induction calls arbitrary: d) (simp_all add: dict_inv_perform)

lemma dict_inv_reader_after: "dict_inv (reader_after rm calls)"
  by (simp add: reader_after_def dict_inv_foldl dict_inv_empty)

lemma set_present_groups: "set (present_groups d) = {g. \<exists>k. (k, Some g) \<in> set d}"
  by (force simp: present_groups_def image_iff)

lemma set_getFilesInOrder: "set (getFilesInOrder d) = {g. \<exists>k. (k, Some g) \<in> set d}"
  by (simp add: getFilesInOrder_def set_array_sort set_present_groups)

lemma getFileFor_SomeD: "getFileFor d p = Some g \<Longrightarrow> (p, Some g) \<in> set d"
  by (auto simp: getFileFor_def split: option.splits dest: map_of_SomeD)

lemma present_groups_tombstone:
  "present_groups (dict_set d p None) = present_groups (dict_delete d p)"
proof (cases "p \<in> fst ` set d")
  case True
  have "present_groups (map (\<lambda>(k', v'). if k' = p then (k', None) else (k', v')) d) =
      present_groups (filter (\<lambda>(k', v'). k' \<noteq> p) d)"
    by (induction d) (auto simp: present_groups_def)
  with True show ?thesis
    by (simp add: dict_set_def dict_delete_def)
next
  case False
  then show ?thesis
    by (simp add: dict_set_def dict_delete_absent present_groups_def)
qed

lemma enumerate_without:
  assumes "dict_inv d"
  shows "\<forall>g\<in>set (getFilesInOrder (dict_set d p None)). path (file' g) \<noteq> p"
proof
  fix g
  assume "g \<in> set (getFilesInOrder (dict_set d p None))"
  then obtain k where k: "(k, Some g) \<in> set (dict_set d p None)"
    by (auto simp: set_getFilesInOrder)
  from set_dict_set [OF k] have "k \<noteq> p" and "(k, Some g) \<in> set d"
    by auto
  with assms show "path (file' g) \<noteq> p"
    by (auto simp: dict_inv_def)
qed

text \<open>
  C6. Absence. Let the reader have performed any calls. (1) When the extraction of a text
  gives no item, then after \<open>loadFile\<close> has stored the result for the file \<open>f\<close> the lookup
  of its path finds nothing and the enumeration holds no group of that path; the same
  holds after \<open>updateFile\<close>, when the text it gets for \<open>f\<close> gives no item. (2) A group that
  the enumeration or a lookup shows has at least one item. (3) A path that holds \<open>null\<close>
  and a path that was deleted look the same: every lookup and the enumeration give the
  same result for the two dictionaries.
\<close>

theorem absence_invariant:
  "(extract_todos rm md = [] \<longrightarrow>
      getFileFor (loadFile rm f md (reader_after rm calls)) (path f) = None \<and>
      (\<forall>g\<in>set (getFilesInOrder (loadFile rm f md (reader_after rm calls))). path (file' g) \<noteq> path f)) \<and>
   (current_text app f = Some md \<and> extract_todos rm md = [] \<longrightarrow>
      getFileFor (updateFile rm app f (reader_after rm calls)) (path f) = None \<and>
      (\<forall>g\<in>set (getFilesInOrder (updateFile rm app f (reader_after rm calls))). path (file' g) \<noteq> path f)) \<and>
   (\<forall>g\<in>set (getFilesInOrder (reader_after rm calls)). items g \<noteq> []) \<and>
   (\<forall>g. getFileFor (reader_after rm calls) p = Some g \<longrightarrow> items g \<noteq> []) \<and>
   getFileFor (dict_set d p None) q = getFileFor (dict_delete d p) q \<and>
   getFilesInOrder (dict_set d p None) = getFilesInOrder (dict_delete d p)"
proof -
  let ?d = "reader_after rm calls"
  have inv: "dict_inv ?d"
    by (rule dict_inv_reader_after)
  have load: "getFileFor (loadFile rm f md ?d) (path f) = None \<and>
      (\<forall>g\<in>set (getFilesInOrder (loadFile rm f md ?d)). path (file' g) \<noteq> path f)"
    if "extract_todos rm md = []"
    using that enumerate_without [OF inv, of "path f"]
    by (simp add: loadFile_def getFileFor_dict_set)
  have update: "getFileFor (updateFile rm app f ?d) (path f) = None \<and>
      (\<forall>g\<in>set (getFilesInOrder (updateFile rm app f ?d)). path (file' g) \<noteq> path f)"
    if "current_text app f = Some md \<and> extract_todos rm md = []"
    using that load by (simp add: updateFile_def loadFileFromWorkspace_current_text)
  have shown: "\<forall>g\<in>set (getFilesInOrder ?d). items g \<noteq> []"
    using inv by (auto simp: set_getFilesInOrder dict_inv_def)
  have found: "\<forall>g. getFileFor ?d p = Some g \<longrightarrow> items g \<noteq> []"
    using inv by (auto simp: dict_inv_def dest: getFileFor_SomeD)
  have same_lookup: "getFileFor (dict_set d p None) q = getFileFor (dict_delete d p) q"
    by (simp add: getFileFor_dict_set getFileFor_dict_delete)
  have same_list: "getFilesInOrder (dict_set d p None) = getFilesInOrder (dict_delete d p)"
    by (simp add: getFilesInOrder_def present_groups_tombstone)
  from load update shown found same_lookup same_list show ?thesis
    by blast
qed

lemma tracked_ab:
  "reader_after (\<lambda>x. x) [LoadAllFiles app_ex [file_a, file_b]] =
     [(jsstr ''a.md'', Some \<lparr>file' = file_a, items = [Str (jsstr ''buy milk'')]\<rparr>),
      (jsstr ''b.md'', Some \<lparr>file' = file_b, items = [Str (jsstr ''call mom'')]\<rparr>)]"
  by code_simp

lemma current_text_cleared: "current_text app_cleared file_a = Some (jsstr ''milk bought'')"
  by code_simp

lemma extract_cleared: "extract_todos (\<lambda>x. x) (jsstr ''milk bought'') = []"
  by code_simp

lemma updated_cleared:
  "updateFile (\<lambda>x. x) app_cleared file_a (reader_after (\<lambda>x. x) [LoadAllFiles app_ex [file_a, file_b]]) =
     [(jsstr ''a.md'', None),
      (jsstr ''b.md'', Some \<lparr>file' = file_b, items = [Str (jsstr ''call mom'')]\<rparr>)]"
  by code_simp

lemma enumerate_cleared:
  "getFilesInOrder [(jsstr ''a.md'', None),
      (jsstr ''b.md'', Some \<lparr>file' = file_b, items = [Str (jsstr ''call mom'')]\<rparr>)] =
     [\<lparr>file' = file_b, items = [Str (jsstr ''call mom'')]\<rparr>]"
  by code_simp

theorem absence_invariant_witness:
  "getFileFor (reader_after (\<lambda>x. x) [LoadAllFiles app_ex [file_a, file_b]]) (path file_a) =
     Some \<lparr>file' = file_a, items = [Str (jsstr ''buy milk'')]\<rparr> \<and>
   current_text app_cleared file_a = Some (jsstr ''milk bought'') \<and>
   extract_todos (\<lambda>x. x) (jsstr ''milk bought'') = [] \<and>
   getFileFor (updateFile (\<lambda>x. x) app_cleared file_a
       (reader_after (\<lambda>x. x) [LoadAllFiles app_ex [file_a, file_b]])) (path file_a) = None \<and>
   getFilesInOrder (updateFile (\<lambda>x. x) app_cleared file_a
       (reader_after (\<lambda>x. x) [LoadAllFiles app_ex [file_a, file_b]])) =
     [\<lparr>file' = file_b, items = [Str (jsstr ''call mom'')]\<rparr>] \<and>
   path (file' \<lparr>file' = file_b, items = [Str (jsstr ''call mom'')]\<rparr>) \<noteq> path file_a \<and>
   items \<lparr>file' = file_b, items = [Str (jsstr ''call mom'')]\<rparr> \<noteq> []"
proof -
  let ?d = "reader_after (\<lambda>x. x) [LoadAllFiles app_ex [file_a, file_b]]"
  let ?gb = "\<lparr>file' = file_b, items = [Str (jsstr ''call mom'')]\<rparr>"
  note t = absence_invariant [of "\<lambda>x. x" "jsstr ''milk bought''" file_a
      "[LoadAllFiles app_ex [file_a, file_b]]" app_cleared]
  have pa: "path file_a = jsstr ''a.md''"
    by (simp add: file_a_def)
  have here: "getFileFor ?d (path file_a) = Some \<lparr>file' = file_a, items = [Str (jsstr ''buy milk'')]\<rparr>"
    unfolding tracked_ab pa by (simp add: getFileFor_def)
  have listed: "getFilesInOrder (updateFile (\<lambda>x. x) app_cleared file_a ?d) = [?gb]"
    by (simp only: updated_cleared enumerate_cleared)
  from t current_text_cleared extract_cleared
  have gone: "getFileFor (updateFile (\<lambda>x. x) app_cleared file_a ?d) (path file_a) = None"
    and others: "\<forall>g\<in>set (getFilesInOrder (updateFile (\<lambda>x. x) app_cleared file_a ?d)).
        path (file' g) \<noteq> path file_a"
    by blast+
  from others listed have "path (file' ?gb) \<noteq> path file_a"
    by simp
  with here gone listed current_text_cleared extract_cleared show ?thesis
    by simp
qed

section \<open>The labeled rule\<close>

text \<open>
  The two equations of \<open>run\<close> for a star call \<open>run\<close> on the same expression; they are
  unfolded by hand, one step at a time.
\<close>

declare run.simps(5) [simp del]
declare run.simps(7) [simp del]

lemma run_star_nil: "run (Star c # r) pos [] g cap = run r pos [] g cap"
  by (subst run.simps(5)) simp

lemma run_star_skip: "\<not> cls_ok c x \<Longrightarrow> run (Star c # r) pos (x # xs) g cap = run r pos (x # xs) g cap"
  by (subst run.simps(5)) simp

lemma run_star_take:
  "cls_ok c x \<Longrightarrow>
   run (Star c # r) pos (x # xs) g cap =
     (case run (Star c # r) (pos + 1) xs g cap of
        Some res \<Rightarrow> Some res
      | None \<Rightarrow> run r pos (x # xs) g cap)"
  by (subst run.simps(5)) simp

lemma run_lazy_star:
  "run (LazyStar c # r) pos s g cap =
     (case run r pos s g cap of
        Some res \<Rightarrow> Some res
      | None \<Rightarrow>
          (case s of [] \<Rightarrow> None
           | x # xs \<Rightarrow> if cls_ok c x then run (LazyStar c # r) (pos + 1) xs g cap else None))"
  by (subst run.simps(7)) simp

lemma run_lits:
  "run (map (\<lambda>c. One (Ch c)) w @ r) pos s g cap =
     (if take (length w) s = w then run r (pos + length w) (drop (length w) s) g cap else None)"
proof (induction w arbitrary: pos s)
  case Nil
  then show ?case by simp
next
  case (Cons a w)
  show ?case
  proof (cases s)
    case Nil
    then show ?thesis by simp
  next
    case (Cons x xs)
    then show ?thesis
      using Cons.IH [of "pos + 1" xs] by auto
  qed
qed

lemma colon_no_space: "\<not> isSpace 0x3A"
  by (simp add: isSpace_def isWhiteSpace_def isLineTerminator_def)

lemma run_spaces_colon:
  "run (Star WS # One (Ch 0x3A) # r) pos s g cap =
     (case dropWhile isSpace s of
        [] \<Rightarrow> None
      | c # rest \<Rightarrow>
          if c = 0x3A then run r (Suc (pos + length (takeWhile isSpace s))) rest g cap else None)"
proof (induction s arbitrary: pos)
  case Nil
  then show ?case by (simp add: run_star_nil)
next
  case (Cons x xs)
  show ?case
  proof (cases "isSpace x")
    case True
    then have "x \<noteq> 0x3A"
      using colon_no_space by auto
    then have "run (One (Ch 0x3A) # r) pos (x # xs) g cap = None"
      by simp
    with True have eq: "run (Star WS # One (Ch 0x3A) # r) pos (x # xs) g cap =
        run (Star WS # One (Ch 0x3A) # r) (pos + 1) xs g cap"
      by (simp add: run_star_take split: option.splits)
    show ?thesis
      unfolding eq by (simp add: Cons.IH True cong: list.case_cong if_cong)
  next
    case False
    then show ?thesis by (simp add: run_star_skip colon_no_space)
  qed
qed

lemma run_lazy_dots:
  "run [LazyStar AnyChar, GroupClose, Eol] pos s (Some s0) cap =
     (if \<forall>c\<in>set s. \<not> isLineTerminator c then Some (Some s0, []) else None)"
proof (induction s arbitrary: pos)
  case Nil
  show ?case by (subst run_lazy_star) simp
next
  case (Cons x xs)
  show ?case by (subst run_lazy_star) (simp add: Cons.IH)
qed

lemma run_group:
  "run [GroupOpen, LazyPlus AnyChar, GroupClose, Eol] pos s g cap =
     (if s \<noteq> [] \<and> (\<forall>c\<in>set s. \<not> isLineTerminator c) then Some (Some s, []) else None)"
  by (cases s) (simp_all add: run_lazy_dots)

lemma run_spaces_group:
  assumes "\<forall>c\<in>set s. \<not> isLineTerminator c" and "dropWhile isSpace s \<noteq> []"
  shows "run [Star WS, GroupOpen, LazyPlus AnyChar, GroupClose, Eol] pos s g cap =
     Some (Some (dropWhile isSpace s), [])"
  using assms
proof (induction s arbitrary: pos)
  case Nil
  then show ?case by simp
next
  case (Cons x xs)
  show ?case
  proof (cases "isSpace x")
    case True
    with Cons.prems have "\<forall>c\<in>set xs. \<not> isLineTerminator c" and "dropWhile isSpace xs \<noteq> []"
      by simp_all
    from Cons.IH [OF this, of "pos + 1"] True show ?thesis
      by (simp add: run_star_take)
  next
    case False
    with Cons.prems show ?thesis
      by (simp add: run_star_skip run_lazy_dots)
  qed
qed

lemma star_search_none:
  assumes "\<And>k pos. run T pos (drop k s) g cap = None"
  shows "run (Star c # T) pos s g cap = None"
  using assms
proof (induction s arbitrary: pos)
  case Nil
  from Nil [of pos 0] show ?case
    by (simp add: run_star_nil)
next
  case (Cons x xs)
  have here: "run T pos (x # xs) g cap = None"
    using Cons.prems [of pos 0] by simp
  have "run T pos' (drop k xs) g cap = None" for k pos'
    using Cons.prems [of pos' "Suc k"] by simp
  then have later: "run (Star c # T) (pos + 1) xs g cap = None"
    by (rule Cons.IH)
  show ?case
  proof (cases "cls_ok c x")
    case True
    with later here show ?thesis
      by (simp add: run_star_take)
  next
    case False
    then show ?thesis
      by (simp add: run_star_skip here)
  qed
qed

lemma star_search_last:
  assumes "\<forall>x\<in>set p. cls_ok c x"
    and "\<And>pos. run T pos q g cap = Some res"
    and "\<And>k pos. 0 < k \<Longrightarrow> run T pos (drop k q) g cap = None"
  shows "run (Star c # T) pos (p @ q) g cap = Some res"
  using assms(1)
proof (induction p arbitrary: pos)
  case Nil
  show ?case
  proof (cases q)
    case Nil
    with assms(2) [of pos] show ?thesis
      by (simp add: run_star_nil)
  next
    case (Cons x xs)
    have "run T pos' (drop k xs) g cap = None" for k pos'
      using assms(3) [of "Suc k" pos'] Cons by simp
    then have "run (Star c # T) (pos + 1) xs g cap = None"
      by (rule star_search_none)
    with assms(2) [of pos] Cons show ?thesis
      by (cases "cls_ok c x") (simp_all add: run_star_take run_star_skip)
  qed
next
  case (Cons y p)
  then have "run (Star c # T) (pos + 1) (p @ q) g cap = Some res"
    by simp
  with Cons.prems show ?case
    by (simp add: run_star_take)
qed

lemma labeled_prefix_shape:
  "labeled_prefix s = Some t \<Longrightarrow>
   take 4 s = jsstr ''TODO'' \<and> dropWhile isSpace (drop 4 s) = 0x3A # t"
  by (auto simp: labeled_prefix_def split: if_splits list.splits)

lemma length_marker: "length (jsstr ''TODO'') = 4"
  by (simp add: jsstr_def)

lemma case_colon_tail:
  "(case (case xs of [] \<Rightarrow> None | c # rest \<Rightarrow> if c = k then Some rest else None) of
      None \<Rightarrow> None
    | Some t \<Rightarrow> F t) =
   (case xs of [] \<Rightarrow> None | c # rest \<Rightarrow> if c = k then F rest else None)"
  by (cases xs) simp_all

lemma run_labeled_rest:
  "run (map (\<lambda>c. One (Ch c)) (jsstr ''TODO'') @ Star WS # One (Ch 0x3A) # r) pos s g cap =
     (case labeled_prefix s of
        None \<Rightarrow> None
      | Some t \<Rightarrow> run r (Suc (pos + 4 + length (takeWhile isSpace (drop 4 s)))) t g cap)"
proof (cases "take 4 s = jsstr ''TODO''")
  case True
  have "run (map (\<lambda>c. One (Ch c)) (jsstr ''TODO'') @ Star WS # One (Ch 0x3A) # r) pos s g cap =
      run (Star WS # One (Ch 0x3A) # r) (pos + 4) (drop 4 s) g cap"
    by (simp add: run_lits length_marker True)
  also have "\<dots> =
      (case dropWhile isSpace (drop 4 s) of
         [] \<Rightarrow> None
       | c # rest \<Rightarrow>
           if c = 0x3A
           then run r (Suc (pos + 4 + length (takeWhile isSpace (drop 4 s)))) rest g cap
           else None)"
    by (rule run_spaces_colon)
  also have "\<dots> =
      (case labeled_prefix s of
         None \<Rightarrow> None
       | Some t \<Rightarrow> run r (Suc (pos + 4 + length (takeWhile isSpace (drop 4 s)))) t g cap)"
    by (simp only: labeled_prefix_def True case_colon_tail if_True simp_thms)
  finally show ?thesis .
next
  case False
  then have "labeled_prefix s = None"
    by (simp add: labeled_prefix_def)
  moreover have "run (map (\<lambda>c. One (Ch c)) (jsstr ''TODO'') @ Star WS # One (Ch 0x3A) # r) pos s g cap =
      None"
    using False by (simp add: run_lits length_marker)
  ultimately show ?thesis
    by simp
qed

lemma labeled_prefix_none:
  "labeled_prefix s = None \<Longrightarrow>
   run (map (\<lambda>c. One (Ch c)) (jsstr ''TODO'') @ Star WS # One (Ch 0x3A) # r) pos s g cap = None"
  by (simp only: run_labeled_rest option.case)

lemma labeled_prefix_some:
  "labeled_prefix s = Some t \<Longrightarrow>
   \<exists>pos'. run (map (\<lambda>c. One (Ch c)) (jsstr ''TODO'') @ Star WS # One (Ch 0x3A) # r) pos s g cap =
     run r pos' t g cap"
  by (simp only: run_labeled_rest option.case) blast

lemma labeled_prefix_subset: "labeled_prefix s = Some t \<Longrightarrow> set t \<subseteq> set s"
proof -
  assume "labeled_prefix s = Some t"
  then have "dropWhile isSpace (drop 4 s) = 0x3A # t"
    by (simp add: labeled_prefix_shape)
  then have "set t \<subseteq> set (dropWhile isSpace (drop 4 s))"
    by auto
  also have "\<dots> \<subseteq> set (drop 4 s)"
    by (rule set_dropWhileD [THEN subsetI]) 
  also have "\<dots> \<subseteq> set s"
    by (rule set_drop_subset)
  finally show ?thesis .
qed

lemma labeled_tails_none: "labeled_tails s = [] \<Longrightarrow> labeled_prefix (drop k s) = None"
proof (induction s arbitrary: k)
  case Nil
  then show ?case by (simp add: labeled_prefix_def jsstr_def)
next
  case (Cons c cs)
  then show ?case
    by (cases k) (auto split: option.splits)
qed

lemma labeled_tails_last:
  "labeled_tails s \<noteq> [] \<Longrightarrow>
   \<exists>p q. s = p @ q \<and> labeled_prefix q = Some (last (labeled_tails s)) \<and>
     (\<forall>k. 0 < k \<longrightarrow> labeled_prefix (drop k q) = None)"
proof (induction s)
  case Nil
  then show ?case by simp
next
  case (Cons c cs)
  show ?case
  proof (cases "labeled_tails cs = []")
    case True
    with Cons.prems obtain t where t: "labeled_prefix (c # cs) = Some t"
      by (auto split: option.splits)
    with True have "last (labeled_tails (c # cs)) = t"
      by simp
    moreover have "labeled_prefix (drop k (c # cs)) = None" if "0 < k" for k
      using that labeled_tails_none [OF True, of "k - 1"] by (cases k) simp_all
    ultimately have "c # cs = [] @ (c # cs) \<and>
        labeled_prefix (c # cs) = Some (last (labeled_tails (c # cs))) \<and>
        (\<forall>k. 0 < k \<longrightarrow> labeled_prefix (drop k (c # cs)) = None)"
      using t by simp
    then show ?thesis by blast
  next
    case False
    from Cons.IH [OF False] obtain p q where pq: "cs = p @ q"
      "labeled_prefix q = Some (last (labeled_tails cs))"
      "\<forall>k. 0 < k \<longrightarrow> labeled_prefix (drop k q) = None"
      by blast
    from False have "last (labeled_tails (c # cs)) = last (labeled_tails cs)"
      by (simp split: option.splits)
    with pq have "c # cs = (c # p) @ q \<and>
        labeled_prefix q = Some (last (labeled_tails (c # cs))) \<and>
        (\<forall>k. 0 < k \<longrightarrow> labeled_prefix (drop k q) = None)"
      by simp
    then show ?thesis by blast
  qed
qed

lemma trim_dropWhile: "trim (dropWhile isSpace s) = trim s"
  by (simp add: trim_def)

lemma trim_nonempty:
  assumes "trim s \<noteq> []"
  shows "dropWhile isSpace s \<noteq> []"
proof
  assume "dropWhile isSpace s = []"
  then have "trim s = []"
    by (simp only: trim_def rev.simps dropWhile.simps)
  with assms show False
    by simp
qed

lemma RE_LABELED_nodes:
  "RE_LABELED = Bol # Star AnyChar #
     (map (\<lambda>c. One (Ch c)) (jsstr ''TODO'') @ Star WS # One (Ch 0x3A) #
       [Star WS, GroupOpen, LazyPlus AnyChar, GroupClose, Eol])"
  by (simp add: RE_LABELED_def lit_def jsstr_def)

lemma labeled_rule_last:
  assumes tails: "labeled_tails line \<noteq> []"
    and plain: "\<forall>c\<in>set line. \<not> isLineTerminator c"
    and nonblank: "trim (last (labeled_tails line)) \<noteq> []"
  shows "matchText RE_LABELED line = Some (trim (last (labeled_tails line)))"
proof -
  let ?t = "last (labeled_tails line)"
  let ?G = "[Star WS, GroupOpen, LazyPlus AnyChar, GroupClose, Eol]"
  let ?T = "map (\<lambda>c. One (Ch c)) (jsstr ''TODO'') @ Star WS # One (Ch 0x3A) # ?G"
  from labeled_tails_last [OF tails] obtain p q where pq: "line = p @ q"
    "labeled_prefix q = Some ?t" "\<forall>k. 0 < k \<longrightarrow> labeled_prefix (drop k q) = None"
    by blast
  have "set ?t \<subseteq> set q"
    using pq(2) by (rule labeled_prefix_subset)
  with plain pq(1) have t_plain: "\<forall>c\<in>set ?t. \<not> isLineTerminator c"
    by auto
  have t_text: "dropWhile isSpace ?t \<noteq> []"
    using nonblank by (rule trim_nonempty)
  have at_q: "run ?T pos q None None = Some (Some (dropWhile isSpace ?t), [])" for pos
  proof -
    from labeled_prefix_some [OF pq(2), of ?G pos None None]
    obtain pos' where "run ?T pos q None None = run ?G pos' ?t None None"
      by blast
    then show ?thesis
      by (simp only: run_spaces_group [OF t_plain t_text])
  qed
  have after_q: "run ?T pos (drop k q) None None = None" if "0 < k" for k pos
    using that pq(3) by (simp add: labeled_prefix_none)
  have p_plain: "\<forall>x\<in>set p. cls_ok AnyChar x"
    using plain pq(1) by simp
  have "run (Star AnyChar # ?T) 0 (p @ q) None None = Some (Some (dropWhile isSpace ?t), [])"
    using p_plain at_q after_q by (rule star_search_last)
  then have "run RE_LABELED 0 line None None = Some (Some (dropWhile isSpace ?t), [])"
    by (simp add: RE_LABELED_nodes pq(1))
  then have "search RE_LABELED 0 line = Some (Some (dropWhile isSpace ?t), [])"
    by (cases line) simp_all
  then show ?thesis
    by (simp add: matchText_def trim_dropWhile)
qed

lemma link_free_twice:
  "replace_all LINK_REGEX 0 (jsstr ''TODO: a TODO: b'') = jsstr ''TODO: a TODO: b''"
  by code_simp

lemma scan_labeled_twice:
  "scan_lines (map trim (split_lines (jsstr ''TODO: a TODO: b''))) = [Str (jsstr ''b'')]"
  by code_simp

lemma tails_labeled_twice:
  "labeled_tails (jsstr ''TODO: a TODO: b'') = [jsstr '' a TODO: b'', jsstr '' b'']"
  by code_simp

lemma plain_labeled_twice: "\<forall>c\<in>set (jsstr ''TODO: a TODO: b''). \<not> isLineTerminator c"
  by code_simp

lemma trim_b: "trim (jsstr '' b'') = jsstr ''b''"
  by code_simp

text \<open>
  C9, as the code has it. For the one-line document \<open>TODO: a TODO: b\<close>, which the markdown
  remover leaves as it is, the extractor returns exactly \<open>b\<close>. In general, on a line
  without line terminator characters in which the labeled pattern occurs (once or more
  often), and in which the text after the last occurrence is not blank, the labeled rule
  captures that text, trimmed, and it is the item of the line.
\<close>

theorem labeled_rule_last_occurrence:
  "(rm (jsstr ''TODO: a TODO: b'') = jsstr ''TODO: a TODO: b'' \<longrightarrow>
      extract_todos rm (jsstr ''TODO: a TODO: b'') = [Str (jsstr ''b'')]) \<and>
   (\<forall>line.
      labeled_tails line \<noteq> [] \<and> (\<forall>c\<in>set line. \<not> isLineTerminator c) \<and>
      trim (last (labeled_tails line)) \<noteq> [] \<longrightarrow>
      matchText RE_LABELED line = Some (trim (last (labeled_tails line))) \<and>
      try_regexes TODO_REGEXES line = Some (trim (last (labeled_tails line))))"
proof (intro conjI impI allI)
  assume "rm (jsstr ''TODO: a TODO: b'') = jsstr ''TODO: a TODO: b''"
  then show "extract_todos rm (jsstr ''TODO: a TODO: b'') = [Str (jsstr ''b'')]"
    by (simp add: extract_todos_def lines_of_def link_free_twice scan_labeled_twice)
next
  fix line
  assume h: "labeled_tails line \<noteq> [] \<and> (\<forall>c\<in>set line. \<not> isLineTerminator c) \<and>
      trim (last (labeled_tails line)) \<noteq> []"
  then show m: "matchText RE_LABELED line = Some (trim (last (labeled_tails line)))"
    by (simp add: labeled_rule_last)
  from h show "try_regexes TODO_REGEXES line = Some (trim (last (labeled_tails line)))"
    using m by (simp add: labeled_rule_first)
qed

theorem labeled_rule_last_occurrence_witness:
  "extract_todos (\<lambda>x. x) (jsstr ''TODO: a TODO: b'') = [Str (jsstr ''b'')] \<and>
   labeled_tails (jsstr ''TODO: a TODO: b'') = [jsstr '' a TODO: b'', jsstr '' b''] \<and>
   matchText RE_LABELED (jsstr ''TODO: a TODO: b'') = Some (jsstr ''b'') \<and>
   try_regexes TODO_REGEXES (jsstr ''TODO: a TODO: b'') = Some (jsstr ''b'')"
proof -
  have p1: "extract_todos (\<lambda>x. x) (jsstr ''TODO: a TODO: b'') = [Str (jsstr ''b'')]"
    by (rule labeled_rule_last_occurrence [of "\<lambda>x. x", THEN conjunct1, rule_format]) (rule refl)
  have nb: "jsstr ''b'' \<noteq> []"
    by (simp add: jsstr_def)
  have hyp: "labeled_tails (jsstr ''TODO: a TODO: b'') \<noteq> [] \<and>
      (\<forall>c\<in>set (jsstr ''TODO: a TODO: b''). \<not> isLineTerminator c) \<and>
      trim (last (labeled_tails (jsstr ''TODO: a TODO: b''))) \<noteq> []"
    using plain_labeled_twice nb by (simp add: tails_labeled_twice trim_b)
  have "matchText RE_LABELED (jsstr ''TODO: a TODO: b'') =
        Some (trim (last (labeled_tails (jsstr ''TODO: a TODO: b'')))) \<and>
      try_regexes TODO_REGEXES (jsstr ''TODO: a TODO: b'') =
        Some (trim (last (labeled_tails (jsstr ''TODO: a TODO: b''))))"
    using hyp by (rule labeled_rule_last_occurrence [THEN conjunct2, rule_format])
  then have p2: "matchText RE_LABELED (jsstr ''TODO: a TODO: b'') = Some (jsstr ''b'') \<and>
      try_regexes TODO_REGEXES (jsstr ''TODO: a TODO: b'') = Some (jsstr ''b'')"
    by (simp add: tails_labeled_twice trim_b)
  from p1 p2 tails_labeled_twice show ?thesis
    by simp
qed

lemma tails_open_end:
  "labeled_tails (jsstr ''TODO: a TODO:'') = [jsstr '' a TODO:'', []]"
  by code_simp

lemma match_open_end: "matchText RE_LABELED (jsstr ''TODO: a TODO:'') = Some (jsstr ''a TODO:'')"
  by code_simp

lemma extract_open_end:
  "extract_todos (\<lambda>x. x) (jsstr ''TODO: a TODO:'') = [Str (jsstr ''a TODO:'')]"
  by code_simp

lemma tails_carriage_return:
  "labeled_tails (jsstr ''TODO: a'' @ [0x0D] @ jsstr ''TODO: b'') =
     [jsstr '' a'' @ [0x0D] @ jsstr ''TODO: b'', jsstr '' b'']"
  by code_simp

lemma extract_carriage_return:
  "extract_todos (\<lambda>x. x) (jsstr ''TODO: a'' @ [0x0D] @ jsstr ''TODO: b'') = []"
  by code_simp

text \<open>
  C9, as it is stated, fails. In the line \<open>TODO: a TODO:\<close> the labeled pattern occurs
  twice and nothing follows the last occurrence; the labeled rule falls back to the first
  occurrence and captures \<open>a TODO:\<close>, which is the item the extractor returns. And in a
  line that holds a carriage return between two occurrences (a line is cut at line feeds
  only), no expression matches, since the dot does not match a carriage return: the
  extractor returns nothing.
\<close>

theorem labeled_rule_not_always_last:
  "extract_todos (\<lambda>x. x) (jsstr ''TODO: a TODO:'') = [Str (jsstr ''a TODO:'')] \<and>
   labeled_tails (jsstr ''TODO: a TODO:'') = [jsstr '' a TODO:'', []] \<and>
   extract_todos (\<lambda>x. x) (jsstr ''TODO: a'' @ [0x0D] @ jsstr ''TODO: b'') = [] \<and>
   labeled_tails (jsstr ''TODO: a'' @ [0x0D] @ jsstr ''TODO: b'') =
     [jsstr '' a'' @ [0x0D] @ jsstr ''TODO: b'', jsstr '' b''] \<and>
   \<not> (\<forall>line. 1 < length (labeled_tails line) \<longrightarrow>
         matchText RE_LABELED line = Some (trim (last (labeled_tails line))))"
proof -
  have "\<not> (\<forall>line. 1 < length (labeled_tails line) \<longrightarrow>
         matchText RE_LABELED line = Some (trim (last (labeled_tails line))))"
  proof
    assume "\<forall>line. 1 < length (labeled_tails line) \<longrightarrow>
         matchText RE_LABELED line = Some (trim (last (labeled_tails line)))"
    then have "1 < length (labeled_tails (jsstr ''TODO: a TODO:'')) \<longrightarrow>
        matchText RE_LABELED (jsstr ''TODO: a TODO:'') =
          Some (trim (last (labeled_tails (jsstr ''TODO: a TODO:''))))"
      by (rule spec)
    then have "jsstr ''a TODO:'' = trim []"
      by (simp add: tails_open_end match_open_end)
    then show False
      by (simp add: trim_def jsstr_def)
  qed
  with extract_open_end tails_open_end extract_carriage_return tails_carriage_return
  show ?thesis
    by simp
qed

section \<open>The items of any document\<close>

lemma dropWhile_keeps_last: "\<not> P x \<Longrightarrow> \<exists>ys. dropWhile P (zs @ [x]) = ys @ [x]"
  by (induction zs) auto

lemma trim_idem: "trim (trim s) = trim s"
proof (cases "dropWhile isSpace s")
  case Nil
  then have e: "trim s = []"
    by (simp only: trim_def rev.simps dropWhile.simps)
  show ?thesis
    unfolding e by (simp add: trim_def)
next
  case (Cons x xs)
  then have nx: "\<not> isSpace x"
    by (metis hd_dropWhile list.distinct(1) list.sel(1))
  from dropWhile_keeps_last [of isSpace x "rev xs", OF nx]
  obtain ys where ys: "dropWhile isSpace (rev xs @ [x]) = ys @ [x]"
    by blast
  have t: "trim s = x # rev ys"
    by (simp add: trim_def Cons ys)
  have "dropWhile isSpace (rev (x # rev ys)) = ys @ [x]"
    using ys by (metis dropWhile_idem rev.simps(2) rev_rev_ident)
  with nx show ?thesis
    by (simp add: t) (simp add: trim_def nx)
qed

lemma try_regexes_ok: "try_regexes res l = Some t \<Longrightarrow> t \<noteq> [] \<and> trim t = t"
proof (induction res)
  case Nil
  then show ?case by simp
next
  case (Cons re res)
  then show ?case
    by (auto simp: matchText_def trim_idem split: option.splits if_splits)
qed

lemma readahead_loop_appends:
  assumes "\<forall>l\<in>set lines. trim l = l"
  shows "\<exists>new. readahead_loop lines r its = its @ new \<and> (\<forall>v\<in>set new. item_ok v)"
  using assms
proof (induction lines r its rule: readahead_loop.induct)
  case (1 lines readahead its)
  show ?case
  proof (cases "readahead < length lines \<and> lines ! readahead \<noteq> []")
    case True
    then have "lines ! readahead \<in> set lines"
      by simp
    with "1.prems" have "trim (lines ! readahead) = lines ! readahead"
      by blast
    with True have ok: "item_ok (Str (lines ! readahead))"
      by (simp add: item_ok_def)
    have "\<exists>new. readahead_loop lines (readahead + 1) (its @ [Str (lines ! readahead)]) =
        (its @ [Str (lines ! readahead)]) @ new \<and> (\<forall>v\<in>set new. item_ok v)"
      using True "1.prems" by (intro "1.IH") simp_all
    then obtain new where new:
      "readahead_loop lines (readahead + 1) (its @ [Str (lines ! readahead)]) =
        (its @ [Str (lines ! readahead)]) @ new" "\<forall>v\<in>set new. item_ok v"
      by blast
    have "readahead_loop lines readahead its = its @ (Str (lines ! readahead) # new)"
      using True new(1) by (subst readahead_loop.simps) simp
    moreover have "\<forall>v\<in>set (Str (lines ! readahead) # new). item_ok v"
      using ok new(2) by simp
    ultimately show ?thesis
      by blast
  next
    case False
    then have "readahead_loop lines readahead its = its @ []"
      by (subst readahead_loop.simps) (auto simp: Let_def)
    then show ?thesis
      by (metis empty_iff list.set(1))
  qed
qed

lemma lines_loop_step:
  assumes "\<forall>l\<in>set lines. trim l = l" and "i < length lines"
  shows "\<exists>new. lines_loop lines i its = lines_loop lines (Suc i) (its @ new) \<and>
     (\<forall>v\<in>set new. item_ok v \<or> (v = Undefined \<and> i = 0 \<and> lines ! 0 = jsstr ''TODO''))"
proof (cases "try_regexes TODO_REGEXES (lines ! i)")
  case (Some t)
  then have "item_ok (Str t)"
    using try_regexes_ok [of TODO_REGEXES "lines ! i" t] by (simp add: item_ok_def)
  moreover have "lines_loop lines i its = lines_loop lines (Suc i) (its @ [Str t])"
    using assms(2) Some by (subst lines_loop.simps) simp
  ultimately show ?thesis
    by (intro exI [of _ "[Str t]"]) simp
next
  case None
  show ?thesis
  proof (cases "lines ! i = jsstr ''TODO''")
    case False
    with None assms(2) have "lines_loop lines i its = lines_loop lines (Suc i) (its @ [])"
      by (subst lines_loop.simps) simp
    then show ?thesis
      by (intro exI [of _ "[]"]) simp
  next
    case True
    show ?thesis
    proof (cases "at lines (int i - 1) = Some []")
      case empty: True
      from readahead_loop_appends [OF assms(1), of "Suc i" its]
      obtain new where new: "readahead_loop lines (Suc i) its = its @ new" "\<forall>v\<in>set new. item_ok v"
        by blast
      have "lines_loop lines i its = lines_loop lines (Suc i) (its @ new)"
        using None True empty assms(2) new(1) by (subst lines_loop.simps) simp
      with new(2) show ?thesis
        by blast
    next
      case other: False
      have loop: "lines_loop lines i its =
          lines_loop lines (Suc i) (its @ [jsval_of (at lines (int i - 1))])"
        using None True other assms(2) by (subst lines_loop.simps) simp
      show ?thesis
      proof (cases i)
        case 0
        with True have "jsval_of (at lines (int i - 1)) = Undefined" and "lines ! 0 = jsstr ''TODO''"
          by (simp_all add: at_def jsval_of_def)
        with loop 0 show ?thesis
          by (intro exI [of _ "[Undefined]"]) simp
      next
        case (Suc j)
        with assms(2) have prev: "at lines (int i - 1) = Some (lines ! j)" and "lines ! j \<in> set lines"
          by (simp_all add: at_def)
        with assms(1) other have "item_ok (Str (lines ! j))"
          by (simp add: item_ok_def)
        with loop prev show ?thesis
          by (intro exI [of _ "[Str (lines ! j)]"]) (simp add: jsval_of_def)
      qed
    qed
  qed
qed

lemma lines_loop_appends:
  assumes "\<forall>l\<in>set lines. trim l = l"
  shows "\<exists>new. lines_loop lines i its = its @ new \<and>
     (\<forall>v\<in>set new. item_ok v \<or> (v = Undefined \<and> i = 0 \<and> lines \<noteq> [] \<and> lines ! 0 = jsstr ''TODO''))"
proof (induction "length lines - i" arbitrary: i its)
  case 0
  then have "lines_loop lines i its = its @ []"
    by (subst lines_loop.simps) simp
  then show ?case
    by (metis empty_iff list.set(1))
next
  case (Suc n)
  then have less: "i < length lines"
    by simp
  from lines_loop_step [OF assms less, of its] obtain new1 where new1:
    "lines_loop lines i its = lines_loop lines (Suc i) (its @ new1)"
    "\<forall>v\<in>set new1. item_ok v \<or> (v = Undefined \<and> i = 0 \<and> lines ! 0 = jsstr ''TODO'')"
    by blast
  from Suc.hyps(2) have "n = length lines - Suc i"
    by simp
  from Suc.hyps(1) [OF this, of "its @ new1"] obtain new2 where new2:
    "lines_loop lines (Suc i) (its @ new1) = (its @ new1) @ new2" "\<forall>v\<in>set new2. item_ok v"
    by auto
  have "lines_loop lines i its = its @ (new1 @ new2)"
    using new1(1) new2(1) by simp
  moreover have "\<forall>v\<in>set (new1 @ new2).
      item_ok v \<or> (v = Undefined \<and> i = 0 \<and> lines \<noteq> [] \<and> lines ! 0 = jsstr ''TODO'')"
    using new1(2) new2(2) less by auto
  ultimately show ?case
    by blast
qed

lemma lines_of_trimmed: "\<forall>l\<in>set (lines_of rm md). trim l = l"
  by (simp add: lines_of_def trim_idem)

lemma split_lines_from_nonempty: "split_lines_from cur s \<noteq> []"
  by (induction cur s rule: split_lines_from.induct) simp_all

lemma lines_of_nonempty: "lines_of rm md \<noteq> []"
  by (simp add: lines_of_def split_lines_def split_lines_from_nonempty)

text \<open>
  What holds of the items of every document: an item is a non-empty trimmed string, or it
  is \<open>undefined\<close>; the latter can only be when the first line is the bare marker, and then
  the first item is \<open>undefined\<close>.
\<close>

lemma items_ok_or_undefined:
  "\<forall>v\<in>set (extract_todos rm md).
     item_ok v \<or> (v = Undefined \<and> hd (lines_of rm md) = jsstr ''TODO'')"
proof -
  from lines_loop_appends [OF lines_of_trimmed, of rm md 0 "[]"]
  obtain new where "lines_loop (lines_of rm md) 0 [] = new"
    and "\<forall>v\<in>set new. item_ok v \<or>
      (v = Undefined \<and> lines_of rm md \<noteq> [] \<and> lines_of rm md ! 0 = jsstr ''TODO'')"
    by auto
  then show ?thesis
    by (auto simp: extract_todos_def scan_lines_def hd_conv_nth)
qed

lemma first_marker_gives_undefined:
  assumes "hd (lines_of rm md) = jsstr ''TODO''"
  shows "\<exists>rest. extract_todos rm md = Undefined # rest"
proof -
  let ?ls = "lines_of rm md"
  have ne: "?ls \<noteq> []"
    by (rule lines_of_nonempty)
  with assms have first: "?ls ! 0 = jsstr ''TODO''"
    by (simp add: hd_conv_nth)
  have "at ?ls (int 0 - 1) = None"
    by (simp add: at_def)
  with ne first have "lines_loop ?ls 0 [] = lines_loop ?ls (Suc 0) [Undefined]"
    by (subst lines_loop.simps) (simp add: bare_marker_no_rule jsval_of_def)
  moreover from lines_loop_appends [OF lines_of_trimmed, of rm md "Suc 0" "[Undefined]"]
  obtain new where "lines_loop ?ls (Suc 0) [Undefined] = [Undefined] @ new"
    by blast
  ultimately show ?thesis
    by (simp add: extract_todos_def scan_lines_def)
qed

end
